theory Spec2Isabelle
  imports Complex_Main "HOL-Library.Word"
begin

unbundle bit_operations_syntax

section \<open>Values of the host platform\<close>

text \<open>
  The audio bridge of \<^verbatim>\<open>src/index.tsx\<close> works on three kinds of platform values:
  JavaScript strings (sequences of 16-bit code units), \<^verbatim>\<open>Uint8Array\<close> elements
  (8-bit words) and \<^verbatim>\<open>Int16Array\<close> elements (16-bit words, read as two's
  complement by \<open>sint\<close>). Audio samples and clock readings are finite IEEE numbers;
  every operation the bridge applies to a sample (scaling by the power of two 32768 and
  its inverse on 16-bit integers) is exact on them, so they are modelled as reals.
  The non-finite values NaN and the infinities are outside this model.
\<close>

type_synonym byte = "8 word"
type_synonym int16 = "16 word"
type_synonym code_unit = "16 word"
type_synonym jsstring = "code_unit list"

datatype js_error = InvalidCharacterError | RangeError | NotSupportedError

section \<open>The platform's base64 functions\<close>

text \<open>
  \<^verbatim>\<open>btoa\<close> and \<^verbatim>\<open>atob\<close> are browser built-ins. \<^verbatim>\<open>btoa\<close> is the base64 encoding
  of RFC 4648 with padding and throws on a code unit above 255; \<^verbatim>\<open>atob\<close> is the
  "forgiving-base64 decode" of the WHATWG Infra standard, whose steps are followed
  here one by one.
\<close>

definition is_ascii_whitespace :: "code_unit \<Rightarrow> bool" where
  "is_ascii_whitespace c \<longleftrightarrow> c = 9 \<or> c = 10 \<or> c = 12 \<or> c = 13 \<or> c = 32"

definition pad_char :: code_unit where
  "pad_char = 61"

text \<open>Table 1 of RFC 4648: A-Z, a-z, 0-9, plus and slash.\<close>

definition b64_char :: "nat \<Rightarrow> code_unit" where
  "b64_char n =
     (if n < 26 then of_nat (65 + n)
      else if n < 52 then of_nat (71 + n)
      else if n < 62 then of_nat (n - 4)
      else if n = 62 then 43
      else 47)"

definition b64_value :: "code_unit \<Rightarrow> nat option" where
  "b64_value c =
     (let k = unat c in
      if 65 \<le> k \<and> k \<le> 90 then Some (k - 65)
      else if 97 \<le> k \<and> k \<le> 122 then Some (k - 71)
      else if 48 \<le> k \<and> k \<le> 57 then Some (k + 4)
      else if k = 43 then Some 62
      else if k = 47 then Some 63
      else None)"

text \<open>Three octets become four 6-bit groups; a tail of one or two octets becomes two or
  three groups, the unused low bits being zero.\<close>

fun sextets :: "nat list \<Rightarrow> nat list" where
  "sextets (a # b # c # rest) =
     [a div 4, (a mod 4) * 16 + b div 16, (b mod 16) * 4 + c div 64, c mod 64] @ sextets rest"
| "sextets [a, b] = [a div 4, (a mod 4) * 16 + b div 16, (b mod 16) * 4]"
| "sextets [a] = [a div 4, (a mod 4) * 16]"
| "sextets [] = []"

text \<open>Steps 8 and 9 of forgiving-base64 decode: every 24 accumulated bits are three
  octets; of a remainder of 12 bits the last four are discarded, of 18 bits the last two.\<close>

fun octets :: "nat list \<Rightarrow> nat list" where
  "octets (p # q # r # s # rest) =
     [p * 4 + q div 16, (q mod 16) * 16 + r div 4, (r mod 4) * 64 + s] @ octets rest"
| "octets [p, q, r] = [p * 4 + q div 16, (q mod 16) * 16 + r div 4]"
| "octets [p, q] = [p * 4 + q div 16]"
| "octets [p] = []"
| "octets [] = []"

definition btoa :: "jsstring \<Rightarrow> js_error + jsstring" where
  "btoa s =
     (if list_ex (\<lambda>c. 255 < c) s then Inl InvalidCharacterError
      else Inr (map b64_char (sextets (map unat s))
                @ replicate ((3 - length s mod 3) mod 3) pad_char))"

text \<open>Step 2: when the length is a multiple of four, one or two trailing padding
  characters are removed.\<close>

definition strip_padding :: "jsstring \<Rightarrow> jsstring" where
  "strip_padding s =
     (if length s mod 4 = 0 \<and> s \<noteq> [] \<and> last s = pad_char then
        (if butlast s \<noteq> [] \<and> last (butlast s) = pad_char then butlast (butlast s)
         else butlast s)
      else s)"

text \<open>Step 4 and the table lookup of step 8: \<open>None\<close> when a code unit is not in the
  alphabet.\<close>

fun b64_values :: "jsstring \<Rightarrow> nat list option" where
  "b64_values [] = Some []"
| "b64_values (c # cs) =
     (case b64_value c of
        None \<Rightarrow> None
      | Some v \<Rightarrow> (case b64_values cs of None \<Rightarrow> None | Some vs \<Rightarrow> Some (v # vs)))"

definition atob :: "jsstring \<Rightarrow> js_error + jsstring" where
  "atob s =
     (let d = strip_padding (filter (\<lambda>c. \<not> is_ascii_whitespace c) s) in
      if length d mod 4 = 1 then Inl InvalidCharacterError
      else (case b64_values d of
              None \<Rightarrow> Inl InvalidCharacterError
            | Some vs \<Rightarrow> Inr (map of_nat (octets vs))))"

section \<open>The helpers \<^verbatim>\<open>decode\<close> and \<^verbatim>\<open>encode\<close>\<close>

text \<open>
  \<^verbatim>\<open>decode\<close> stores \<^verbatim>\<open>binaryString.charCodeAt(i)\<close> into a \<^verbatim>\<open>Uint8Array\<close> (the
  store keeps the low eight bits); \<^verbatim>\<open>encode\<close> appends \<^verbatim>\<open>String.fromCharCode(bytes[i])\<close>
  for every byte and passes the string to \<^verbatim>\<open>btoa\<close>. An exception of \<^verbatim>\<open>atob\<close> or
  \<^verbatim>\<open>btoa\<close> leaves the helper.
\<close>

definition decode :: "jsstring \<Rightarrow> js_error + byte list" where
  "decode base64 =
     (case atob base64 of
        Inl e \<Rightarrow> Inl e
      | Inr binaryString \<Rightarrow> Inr (map ucast binaryString))"

definition encode :: "byte list \<Rightarrow> js_error + jsstring" where
  "encode bytes = btoa (map ucast bytes)"

section \<open>Typed arrays and audio buffers\<close>

text \<open>
  Storing a number into an \<^verbatim>\<open>Int16Array\<close> applies the ECMAScript conversion ToInt16:
  the number is truncated (the fractional part is dropped, rounding towards zero), taken
  modulo \<open>2^16\<close> and read as a two's complement value. The 16-bit word keeps the value
  modulo \<open>2^16\<close> and \<open>sint\<close> reads it.
\<close>

definition truncate_real :: "real \<Rightarrow> int" where
  "truncate_real x = (if x < 0 then \<lceil>x\<rceil> else \<lfloor>x\<rfloor>)"

definition ToInt16 :: "real \<Rightarrow> int16" where
  "ToInt16 x = word_of_int (truncate_real x)"

text \<open>
  \<^verbatim>\<open>new Uint8Array(int16.buffer)\<close> reads the same memory byte by byte, and
  \<^verbatim>\<open>new Int16Array(data.buffer)\<close> reads pairs of bytes as 16-bit integers. Typed arrays
  use the byte order of the machine, which is little-endian on every platform browsers
  run on: the low byte comes first. The \<^verbatim>\<open>Int16Array\<close> constructor throws a RangeError
  when the byte length of the buffer is not a multiple of two.
\<close>

definition int16_bytes :: "int16 \<Rightarrow> byte list" where
  "int16_bytes w = [ucast w, ucast (drop_bit 8 w)]"

definition buffer_bytes :: "int16 list \<Rightarrow> byte list" where
  "buffer_bytes ws = concat (map int16_bytes ws)"

fun int16_view :: "byte list \<Rightarrow> int16 list" where
  "int16_view (lo # hi # rest) = (ucast lo OR push_bit 8 (ucast hi)) # int16_view rest"
| "int16_view [lo] = []"
| "int16_view [] = []"

definition new_Int16Array :: "byte list \<Rightarrow> js_error + int16 list" where
  "new_Int16Array buffer =
     (if odd (length buffer) then Inl RangeError else Inr (int16_view buffer))"

text \<open>
  An \<^verbatim>\<open>AudioBuffer\<close>; the field \<open>frames\<close> is its \<^verbatim>\<open>length\<close> in sample frames, and
  \<^verbatim>\<open>duration\<close> is that length divided by the sample rate.
  \<^verbatim>\<open>createBuffer\<close> of the Web Audio API throws a NotSupportedError when an argument is
  zero or outside its nominal range (the length "must be at least 1"); the range every
  implementation accepts is 1 to 32 channels and 8000 to 96000 Hz, and the bridge only
  ever asks for one channel at 24000 Hz. The new buffer is filled with zeros.
\<close>

record audio_buffer =
  numberOfChannels :: nat
  frames :: nat
  sampleRate :: nat
  channels :: "real list list"

definition duration :: "audio_buffer \<Rightarrow> real" where
  "duration b = real (frames b) / real (sampleRate b)"

definition createBuffer :: "nat \<Rightarrow> nat \<Rightarrow> nat \<Rightarrow> js_error + audio_buffer" where
  "createBuffer numChannels frameCount rate =
     (if numChannels = 0 \<or> 32 < numChannels \<or> frameCount = 0 \<or> rate < 8000 \<or> 96000 < rate
      then Inl NotSupportedError
      else Inr \<lparr>numberOfChannels = numChannels, frames = frameCount, sampleRate = rate,
                 channels = replicate numChannels (replicate frameCount 0)\<rparr>)"

section \<open>The helpers \<^verbatim>\<open>decodeAudioData\<close> and \<^verbatim>\<open>createBlob\<close>\<close>

text \<open>
  \<^verbatim>\<open>decodeAudioData(data, ctx, sampleRate, numChannels)\<close>: the context is only used to
  create the buffer and is left out. \<^verbatim>\<open>frameCount\<close> is the quotient
  \<^verbatim>\<open>dataInt16.length / numChannels\<close>, which \<^verbatim>\<open>createBuffer\<close> converts to an unsigned
  integer (for \<^verbatim>\<open>numChannels = 0\<close> the buffer is refused on the channel count); the two
  loops then fill every frame of every channel with the interleaved sample divided by
  32768. Writes past the end of a channel are ignored by the typed array, so the loops
  are maps over the frames that exist. The function is \<^verbatim>\<open>async\<close>: an exception rejects
  its promise, which the awaiting caller receives as the exception.
\<close>

definition decodeAudioData :: "byte list \<Rightarrow> nat \<Rightarrow> nat \<Rightarrow> js_error + audio_buffer" where
  "decodeAudioData data rate numChannels =
     (case new_Int16Array data of
        Inl e \<Rightarrow> Inl e
      | Inr dataInt16 \<Rightarrow>
          (let frameCount = length dataInt16 div numChannels in
           case createBuffer numChannels frameCount rate of
             Inl e \<Rightarrow> Inl e
           | Inr buffer \<Rightarrow>
               Inr (buffer\<lparr>channels :=
                      map (\<lambda>channel.
                             map (\<lambda>i. real_of_int (sint (dataInt16 ! (i * numChannels + channel)))
                                        / 32768)
                               [0..<frameCount])
                          [0..<numChannels]\<rparr>)))"

text \<open>
  \<^verbatim>\<open>createBlob(data)\<close>: the loop \<^verbatim>\<open>int16[i] = data[i] * 32768\<close>, then the bytes of the
  array are passed to \<^verbatim>\<open>encode\<close>.
\<close>

record blob =
  data :: jsstring
  mimeType :: string

definition createBlob_int16 :: "real list \<Rightarrow> int16 list" where
  "createBlob_int16 samples = map (\<lambda>x. ToInt16 (x * 32768)) samples"

definition createBlob :: "real list \<Rightarrow> js_error + blob" where
  "createBlob samples =
     (case encode (buffer_bytes (createBlob_int16 samples)) of
        Inl e \<Rightarrow> Inl e
      | Inr s \<Rightarrow> Inr \<lparr>data = s, mimeType = ''audio/pcm;rate=16000''\<rparr>)"

text \<open>
  The composition the round-trip properties speak about: a captured frame is encoded by
  \<^verbatim>\<open>createBlob\<close>, and the payload is decoded the way the receive path decodes an inbound
  payload, \<^verbatim>\<open>decodeAudioData(decode(payload), outputCtx, 24000, 1)\<close>.
\<close>

definition encode_then_decode :: "real list \<Rightarrow> js_error + audio_buffer" where
  "encode_then_decode samples =
     (case createBlob samples of
        Inl e \<Rightarrow> Inl e
      | Inr b \<Rightarrow>
          (case decode (data b) of
             Inl e \<Rightarrow> Inl e
           | Inr bytes \<Rightarrow> decodeAudioData bytes 24000 1))"

text \<open>
  The conversion of the send path in the words of the specification: the sample times
  32768, truncated towards zero, reduced modulo \<open>2^16\<close> into the signed 16-bit range.
\<close>

definition spec_truncate :: "real \<Rightarrow> int" where
  "spec_truncate y = (if y < 0 then - 1 else 1) * \<lfloor>\<bar>y\<bar>\<rfloor>"

definition spec_wrap_int16 :: "int \<Rightarrow> int" where
  "spec_wrap_int16 k = (k + 32768) mod 65536 - 32768"

definition spec_sample_encoding :: "real \<Rightarrow> int" where
  "spec_sample_encoding x = spec_wrap_int16 (spec_truncate (x * 32768))"

section \<open>The live audio component\<close>

subsection \<open>Platform resources\<close>

text \<open>
  Audio contexts, the microphone stream and the remote session are objects of the
  platform that the component refers to through its variables. The platform is a store:
  a handle is an index, and the entry says what the object is and whether it is still
  alive. Closing an object that is already closed changes nothing:
  \<^verbatim>\<open>MediaStreamTrack.stop()\<close> on an ended track and \<^verbatim>\<open>Session.close()\<close> on a closed
  connection do nothing, and \<^verbatim>\<open>AudioContext.close()\<close> on a closed context returns a
  rejected promise, which the component never awaits.
\<close>

datatype kind = CaptureContext | PlaybackContext | MicrophoneStream | LiveSession

type_synonym handle = nat
type_synonym platform = "(kind \<times> bool) list"

definition allocate :: "kind \<Rightarrow> platform \<Rightarrow> handle \<times> platform" where
  "allocate k p = (length p, p @ [(k, True)])"

definition alive :: "platform \<Rightarrow> handle \<Rightarrow> bool" where
  "alive p h \<longleftrightarrow> h < length p \<and> snd (p ! h)"

definition release :: "handle \<Rightarrow> platform \<Rightarrow> platform" where
  "release h p = (if h < length p then p[h := (fst (p ! h), False)] else p)"

text \<open>The optional call \<^verbatim>\<open>x?.close()\<close>: nothing happens when the variable is empty.\<close>

definition release_opt :: "handle option \<Rightarrow> platform \<Rightarrow> platform" where
  "release_opt v p = (case v of None \<Rightarrow> p | Some h \<Rightarrow> release h p)"

definition alive_of :: "kind \<Rightarrow> platform \<Rightarrow> handle list" where
  "alive_of k p = filter (\<lambda>h. p ! h = (k, True)) [0..<length p]"

subsection \<open>State of one component instance\<close>

text \<open>
  The variables of \<^verbatim>\<open>setup\<close>: \<^verbatim>\<open>isRecording\<close>, \<^verbatim>\<open>audioContexts\<close>, \<^verbatim>\<open>session\<close>,
  \<^verbatim>\<open>nextStartTime\<close> and \<^verbatim>\<open>stream\<close> (the \<^verbatim>\<open>volume\<close> meter takes no part in any
  property below and is left out). Beside them the state carries what the component does
  to the outside: the platform store, the events it emits to its owner
  (\<^verbatim>\<open>emit('speaking-start')\<close>, \<^verbatim>\<open>emit('error', e)\<close>), and the calls
  \<^verbatim>\<open>source.start(when)\<close> it makes, each with the output context, the start time and the
  duration of the buffer. Writes to the console are not part of the state.
\<close>

datatype owner_event = SpeakingStart | ErrorEvent string

record audio_contexts =
  "input" :: "handle option"
  "output" :: "handle option"

record bridge =
  isRecording :: bool
  audioContexts :: audio_contexts
  session :: "handle option"
  nextStartTime :: real
  stream :: "handle option"
  platform :: platform
  emitted :: "owner_event list"
  started :: "(handle \<times> real \<times> real) list"

definition init_bridge :: bridge where
  "init_bridge =
     \<lparr>isRecording = False, audioContexts = \<lparr>input = None, output = None\<rparr>, session = None,
      nextStartTime = 0, stream = None, platform = [], emitted = [], started = []\<rparr>"

subsection \<open>\<^verbatim>\<open>cleanup\<close>, exposed to the owner as \<^verbatim>\<open>stopSession\<close>\<close>

definition cleanup :: "bridge \<Rightarrow> bridge" where
  "cleanup st =
     (let p1 = release_opt (session st) (platform st);
          p2 = release_opt (stream st) p1;
          p3 = release_opt (input (audioContexts st)) p2;
          p4 = release_opt (output (audioContexts st)) p3
      in st\<lparr>isRecording := False, platform := p4, session := None\<rparr>)"

text \<open>
  The statements of \<^verbatim>\<open>cleanup\<close> one by one, in the order in which they run: the
  assignment \<^verbatim>\<open>isRecording.value = false\<close>, the optional close of the session, the stop
  of the stream's tracks, the optional close of the two contexts, and the assignment
  \<^verbatim>\<open>session = null\<close>. No statement changes a variable that a later one reads before
  that last assignment, so the steps are listed from the state in which \<^verbatim>\<open>cleanup\<close>
  starts. An \<open>Emit\<close> step is a call of \<^verbatim>\<open>emit\<close>.
\<close>

datatype step = Emit owner_event | SetRecording bool | Close handle | ClearSession

fun do_step :: "step \<Rightarrow> bridge \<Rightarrow> bridge" where
  "do_step (Emit ev) st = st\<lparr>emitted := emitted st @ [ev]\<rparr>"
| "do_step (SetRecording b) st = st\<lparr>isRecording := b\<rparr>"
| "do_step (Close h) st = st\<lparr>platform := release h (platform st)\<rparr>"
| "do_step ClearSession st = st\<lparr>session := None\<rparr>"

definition closes :: "handle option \<Rightarrow> step list" where
  "closes v = (case v of None \<Rightarrow> [] | Some h \<Rightarrow> [Close h])"

definition cleanup_steps :: "bridge \<Rightarrow> step list" where
  "cleanup_steps st =
     SetRecording False
     # closes (session st) @ closes (stream st)
     @ closes (input (audioContexts st)) @ closes (output (audioContexts st))
     @ [ClearSession]"

subsection \<open>\<^verbatim>\<open>startSession\<close>\<close>

text \<open>
  \<^verbatim>\<open>startSession\<close> is an \<^verbatim>\<open>async\<close> function: it runs until its first \<^verbatim>\<open>await\<close> and is
  resumed when the awaited promise settles; other handlers of the component can run in
  between. Each stretch is a function of its own. The local variables \<^verbatim>\<open>inputCtx\<close> and
  \<^verbatim>\<open>outputCtx\<close> of one call are captured by its callbacks; they form the
  \<open>invocation\<close>.

  The first stretch is the guard and the two \<^verbatim>\<open>new AudioContext\<close>; its Boolean
  arguments say whether each constructor returns. Every exception inside the \<^verbatim>\<open>try\<close>
  block goes to the one \<^verbatim>\<open>catch\<close>, which writes to the console and calls \<^verbatim>\<open>cleanup\<close>.
\<close>

record invocation =
  inputCtx :: handle
  outputCtx :: handle

definition startSession_enter :: "bool \<Rightarrow> bool \<Rightarrow> bridge \<Rightarrow> bridge \<times> invocation option" where
  "startSession_enter input_ok output_ok st =
     (if isRecording st then (st, None)
      else if \<not> input_ok then (cleanup st, None)
      else
        (let (hi, p1) = allocate CaptureContext (platform st) in
         if \<not> output_ok then (cleanup (st\<lparr>platform := p1\<rparr>), None)
         else
           (let (ho, p2) = allocate PlaybackContext p1 in
            (st\<lparr>audioContexts := \<lparr>input = Some hi, output = Some ho\<rparr>, platform := p2\<rparr>,
             Some \<lparr>inputCtx = hi, outputCtx = ho\<rparr>))))"

text \<open>
  The second stretch runs when \<^verbatim>\<open>getUserMedia\<close> settles: on a rejection the \<^verbatim>\<open>catch\<close>
  block, otherwise \<^verbatim>\<open>stream\<close> is assigned, the capture graph is built and
  \<^verbatim>\<open>ai.live.connect\<close> is called.
\<close>

datatype mic_result = MicDenied string | MicGranted

definition startSession_gotStream :: "mic_result \<Rightarrow> bridge \<Rightarrow> bridge" where
  "startSession_gotStream r st =
     (case r of
        MicDenied err \<Rightarrow> cleanup st
      | MicGranted \<Rightarrow>
          (let (h, p) = allocate MicrophoneStream (platform st) in
           st\<lparr>stream := Some h, platform := p\<rparr>))"

text \<open>
  The callbacks given to \<^verbatim>\<open>ai.live.connect\<close>, and the last stretch of \<^verbatim>\<open>startSession\<close>,
  \<^verbatim>\<open>session = await sessionPromise\<close>, which receives the session or the reason of the
  refusal.
\<close>

definition onopen :: "bridge \<Rightarrow> bridge" where
  "onopen st = st\<lparr>isRecording := True\<rparr>"

text \<open>
  \<^verbatim>\<open>onerror\<close> writes to the console (not part of the state), calls
  \<^verbatim>\<open>emit('error', e)\<close> and then \<^verbatim>\<open>cleanup()\<close>; \<^verbatim>\<open>onclose\<close> calls \<^verbatim>\<open>cleanup()\<close>
  only. Each handler is its statements run in this order.
\<close>

definition onerror_steps :: "string \<Rightarrow> bridge \<Rightarrow> step list" where
  "onerror_steps e st = Emit (ErrorEvent e) # cleanup_steps st"

definition onclose_steps :: "bridge \<Rightarrow> step list" where
  "onclose_steps st = cleanup_steps st"

definition onerror :: "string \<Rightarrow> bridge \<Rightarrow> bridge" where
  "onerror e st = fold do_step (onerror_steps e st) st"

definition onclose :: "bridge \<Rightarrow> bridge" where
  "onclose st = fold do_step (onclose_steps st) st"

definition startSession_connected :: "string + handle \<Rightarrow> bridge \<Rightarrow> bridge" where
  "startSession_connected r st =
     (case r of
        Inl err \<Rightarrow> cleanup st
      | Inr s \<Rightarrow> st\<lparr>session := Some s\<rparr>)"

text \<open>
  \<^verbatim>\<open>onmessage\<close> is an \<^verbatim>\<open>async\<close> handler with one \<^verbatim>\<open>await\<close>, on the promise of
  \<^verbatim>\<open>decodeAudioData(decode(audioData), outputCtx, 24000, 1)\<close>. Its first stretch runs up
  to the \<^verbatim>\<open>await\<close>: \<open>currentTime\<close> is the reading of \<^verbatim>\<open>outputCtx.currentTime\<close>, and
  \<open>audioData\<close> the result of the optional chain
  \<^verbatim>\<open>msg.serverContent?.modelTurn?.parts?.[0]?.inlineData?.data\<close> (the empty string is
  falsy). When \<^verbatim>\<open>decode\<close> or \<^verbatim>\<open>decodeAudioData\<close> throws, the handler ends there, after
  the event and the first assignment; otherwise it is suspended with the decoded buffer.
  The second stretch starts the buffer at the marker and advances the marker.
\<close>

definition onmessage_begin :: "real \<Rightarrow> jsstring option \<Rightarrow> bridge \<Rightarrow> bridge \<times> audio_buffer option" where
  "onmessage_begin currentTime audioData st =
     (case audioData of
        None \<Rightarrow> (st, None)
      | Some payload \<Rightarrow>
          if payload = [] then (st, None)
          else
            (let st1 = st\<lparr>emitted := emitted st @ [SpeakingStart],
                          nextStartTime := max (nextStartTime st) currentTime\<rparr> in
             case decode payload of
               Inl e \<Rightarrow> (st1, None)
             | Inr bytes \<Rightarrow>
                 (case decodeAudioData bytes 24000 1 of
                    Inl e \<Rightarrow> (st1, None)
                  | Inr audioBuffer \<Rightarrow> (st1, Some audioBuffer))))"

definition onmessage_resume :: "invocation \<Rightarrow> audio_buffer \<Rightarrow> bridge \<Rightarrow> bridge" where
  "onmessage_resume call audioBuffer st =
     st\<lparr>started := started st @ [(outputCtx call, nextStartTime st, duration audioBuffer)],
        nextStartTime := nextStartTime st + duration audioBuffer\<rparr>"

text \<open>The handler run to its end before anything else happens.\<close>

definition onmessage :: "invocation \<Rightarrow> real \<Rightarrow> jsstring option \<Rightarrow> bridge \<Rightarrow> bridge" where
  "onmessage call currentTime audioData st =
     (case onmessage_begin currentTime audioData st of
        (st1, None) \<Rightarrow> st1
      | (st1, Some audioBuffer) \<Rightarrow> onmessage_resume call audioBuffer st1)"

text \<open>Inbound messages handled one after the other, each with its clock reading.\<close>

fun receive :: "invocation \<Rightarrow> (real \<times> jsstring option) list \<Rightarrow> bridge \<Rightarrow> bridge" where
  "receive call [] st = st"
| "receive call ((currentTime, audioData) # msgs) st =
     receive call msgs (onmessage call currentTime audioData st)"

text \<open>
  Messages that arrive while earlier handlers are still suspended: a turn of the event
  loop either runs the first stretch of the handler for a new message, or resumes the
  handler that has been suspended longest (promise reactions run in the order in which
  they were queued). The second component of the state is the queue of the buffers of
  the suspended handlers.
\<close>

datatype turn = Arrive real "jsstring option" | Resume

fun interleaved ::
  "invocation \<Rightarrow> turn list \<Rightarrow> bridge \<times> audio_buffer list \<Rightarrow> bridge \<times> audio_buffer list" where
  "interleaved call [] sq = sq"
| "interleaved call (Arrive currentTime audioData # turns) (st, queue) =
     (case onmessage_begin currentTime audioData st of
        (st1, None) \<Rightarrow> interleaved call turns (st1, queue)
      | (st1, Some audioBuffer) \<Rightarrow> interleaved call turns (st1, queue @ [audioBuffer]))"
| "interleaved call (Resume # turns) (st, queue) =
     (case queue of
        [] \<Rightarrow> interleaved call turns (st, queue)
      | audioBuffer # rest \<Rightarrow> interleaved call turns (onmessage_resume call audioBuffer st, rest))"

text \<open>
  A schedule without overlap after the marker \<open>t\<close>: every buffer starts no earlier than
  the end of the one before it (the marker, for the first), and lasts a positive time.
\<close>

fun back_to_back :: "real \<Rightarrow> (handle \<times> real \<times> real) list \<Rightarrow> bool" where
  "back_to_back t [] = True"
| "back_to_back t ((c, s, d) # rest) = (t \<le> s \<and> 0 < d \<and> back_to_back (s + d) rest)"

text \<open>
  The same schedule with its end: the last buffer ends no later than \<open>u\<close>.
\<close>

fun back_to_back_until :: "real \<Rightarrow> (handle \<times> real \<times> real) list \<Rightarrow> real \<Rightarrow> bool" where
  "back_to_back_until t [] u = (t \<le> u)"
| "back_to_back_until t ((c, s, d) # rest) u = (t \<le> s \<and> 0 < d \<and> back_to_back_until (s + d) rest u)"

text \<open>
  A call of \<^verbatim>\<open>startSession\<close> in which every step succeeds: both contexts are built, the
  microphone is granted, the connection opens (the session object appears on the
  platform and \<^verbatim>\<open>onopen\<close> runs) and the promise resolves with the session.
\<close>

definition successful_start :: "bridge \<Rightarrow> bridge" where
  "successful_start st =
     (case startSession_enter True True st of
        (st1, None) \<Rightarrow> st1
      | (st1, Some call) \<Rightarrow>
          (let st2 = startSession_gotStream MicGranted st1;
               (h, p) = allocate LiveSession (platform st2);
               st3 = onopen (st2\<lparr>platform := p\<rparr>)
           in startSession_connected (Inr h) st3))"

text \<open>The handles the component's variables refer to.\<close>

definition held :: "bridge \<Rightarrow> handle list" where
  "held st =
     (case session st of None \<Rightarrow> [] | Some h \<Rightarrow> [h])
     @ (case stream st of None \<Rightarrow> [] | Some h \<Rightarrow> [h])
     @ (case input (audioContexts st) of None \<Rightarrow> [] | Some h \<Rightarrow> [h])
     @ (case output (audioContexts st) of None \<Rightarrow> [] | Some h \<Rightarrow> [h])"

text \<open>
  The five classes of failure, each with the handler that runs for it. A failure to
  build a device context happens in the first stretch of \<^verbatim>\<open>startSession\<close>, at the first
  constructor or, with the capture context already built, at the second one.
\<close>

datatype failure =
  PermissionDenied | DeviceInitFailure bool | HandshakeFailure | RemoteError | RemoteClosed

fun fail :: "failure \<Rightarrow> string \<Rightarrow> bridge \<Rightarrow> bridge" where
  "fail PermissionDenied e st = startSession_gotStream (MicDenied e) st"
| "fail (DeviceInitFailure input_built) e st = fst (startSession_enter input_built False st)"
| "fail HandshakeFailure e st = startSession_connected (Inl e) st"
| "fail RemoteError e st = onerror e st"
| "fail RemoteClosed e st = onclose st"

section \<open>Base64 round trip\<close>

lemma unat_cu: "m < 65536 \<Longrightarrow> unat (of_nat m :: 16 word) = m"
  by (simp add: unat_of_nat)

lemma unat_b64_char:
  "n < 64 \<Longrightarrow> unat (b64_char n) =
     (if n < 26 then 65 + n else if n < 52 then 71 + n else if n < 62 then n - 4
      else if n = 62 then 43 else 47)"
  unfolding b64_char_def
  by (simp add: unat_cu del: of_nat_add of_nat_diff)

lemma b64_value_char: "n < 64 \<Longrightarrow> b64_value (b64_char n) = Some n"
  unfolding b64_value_def Let_def
  by (auto simp: unat_b64_char)

lemma b64_char_not_pad: "n < 64 \<Longrightarrow> b64_char n \<noteq> pad_char"
proof
  assume "n < 64" and "b64_char n = pad_char"
  then have "unat (b64_char n) = 61" by (simp add: pad_char_def)
  with \<open>n < 64\<close> show False by (auto simp: unat_b64_char split: if_splits)
qed

lemma b64_char_not_ws: "n < 64 \<Longrightarrow> \<not> is_ascii_whitespace (b64_char n)"
proof
  assume n: "n < 64" and "is_ascii_whitespace (b64_char n)"
  then have "unat (b64_char n) \<in> {9, 10, 12, 13, 32}"
    by (auto simp: is_ascii_whitespace_def)
  with n show False by (auto simp: unat_b64_char split: if_splits)
qed

lemma div_mod_pack:
  "y < k \<Longrightarrow> (x * k + y) div k = (x::nat)" "y < k \<Longrightarrow> (x * k + y) mod k = y"
  by simp_all

lemma octet_parts: "b < (256::nat) \<Longrightarrow> b div 16 < 16" "b < (256::nat) \<Longrightarrow> b div 64 < 4"
  by simp_all

lemma octets_group3:
  assumes "a < 256" "b < 256" "c < (256::nat)"
  shows "(a div 4) * 4 + ((a mod 4) * 16 + b div 16) div 16 = a"
    and "(((a mod 4) * 16 + b div 16) mod 16) * 16 + ((b mod 16) * 4 + c div 64) div 4 = b"
    and "(((b mod 16) * 4 + c div 64) mod 4) * 64 + c mod 64 = c"
  using assms by (simp_all only: div_mod_pack octet_parts) simp_all

lemma octets_group2:
  assumes "a < 256" "b < (256::nat)"
  shows "(((a mod 4) * 16 + b div 16) mod 16) * 16 + ((b mod 16) * 4) div 4 = b"
  using assms by (simp only: div_mod_pack octet_parts) simp

lemma octets_group1:
  assumes "a < (256::nat)"
  shows "(a div 4) * 4 + ((a mod 4) * 16) div 16 = a"
  by simp

lemma octets_sextets: "\<forall>b\<in>set bs. b < 256 \<Longrightarrow> octets (sextets bs) = bs"
proof (induction bs rule: sextets.induct)
  case (1 a b c rest)
  have lt: "a < 256" "b < 256" "c < 256" and rest: "\<forall>b\<in>set rest. b < 256"
    using 1(2) by simp_all
  note g = octets_group3 [OF lt]
  have "octets (sextets (a # b # c # rest)) =
      [(a div 4) * 4 + ((a mod 4) * 16 + b div 16) div 16,
       (((a mod 4) * 16 + b div 16) mod 16) * 16 + ((b mod 16) * 4 + c div 64) div 4,
       (((b mod 16) * 4 + c div 64) mod 4) * 64 + c mod 64] @ octets (sextets rest)"
    by (simp only: sextets.simps octets.simps append_Cons append_Nil)
  also have "\<dots> = [a, b, c] @ rest"
    by (simp only: g 1(1) [OF rest])
  finally show ?case by simp
next
  case (2 a b)
  have lt: "a < 256" "b < 256" using 2 by simp_all
  have "octets (sextets [a, b]) =
      [(a div 4) * 4 + ((a mod 4) * 16 + b div 16) div 16,
       (((a mod 4) * 16 + b div 16) mod 16) * 16 + ((b mod 16) * 4) div 4]"
    by (simp only: sextets.simps octets.simps)
  also have "\<dots> = [a, b]"
    by (simp only: octets_group3(1) [OF lt lt(1)] octets_group2 [OF lt])
  finally show ?case .
next
  case (3 a)
  have lt: "a < 256" using 3 by simp
  have "octets (sextets [a]) = [(a div 4) * 4 + ((a mod 4) * 16) div 16]"
    by (simp only: sextets.simps octets.simps)
  also have "\<dots> = [a]"
    by (simp only: octets_group1 [OF lt])
  finally show ?case .
next
  case 4
  show ?case by simp
qed

lemma sextet_bounds:
  assumes "a < (256::nat)" "b < (256::nat)"
  shows "a div 4 < 64" and "(a mod 4) * 16 + b div 16 < 64" and "(a mod 16) * 4 + b div 64 < 64"
    and "a mod 64 < 64" and "(a mod 4) * 16 < 64" and "(a mod 16) * 4 < 64"
proof -
  have "a mod 4 < 4" "a mod 16 < 16" by simp_all
  moreover note octet_parts [OF assms(2)]
  moreover have "a div 4 < 64" using assms(1) by simp
  ultimately show "a div 4 < 64" and "(a mod 4) * 16 + b div 16 < 64"
    and "(a mod 16) * 4 + b div 64 < 64"
    and "a mod 64 < 64" and "(a mod 4) * 16 < 64" and "(a mod 16) * 4 < 64"
    by simp_all
qed

lemma sextets_lt_64: "\<forall>b\<in>set bs. b < 256 \<Longrightarrow> \<forall>v\<in>set (sextets bs). v < 64"
proof (induction bs rule: sextets.induct)
  case (1 a b c rest)
  have lt: "a < 256" "b < 256" "c < 256" and rest: "\<forall>b\<in>set rest. b < 256"
    using 1(2) by simp_all
  have "\<forall>v\<in>set (sextets rest). v < 64" using 1(1) [OF rest] .
  moreover have "sextets (a # b # c # rest) =
     [a div 4, (a mod 4) * 16 + b div 16, (b mod 16) * 4 + c div 64, c mod 64] @ sextets rest"
    by (simp only: sextets.simps)
  ultimately show ?case
    using sextet_bounds(1,2) [OF lt(1) lt(2)] sextet_bounds(3) [OF lt(2) lt(3)]
      sextet_bounds(4) [OF lt(3) lt(3)]
    by (simp only: set_append set_simps ball_Un ball_simps simp_thms)
next
  case (2 a b)
  have lt: "a < 256" "b < 256" using 2 by simp_all
  show ?case
    using sextet_bounds(1,2) [OF lt] sextet_bounds(6) [OF lt(2) lt(2)]
    by (simp only: sextets.simps set_simps ball_simps simp_thms)
next
  case (3 a)
  have lt: "a < 256" using 3 by simp
  show ?case
    using sextet_bounds(1,5) [OF lt lt]
    by (simp only: sextets.simps set_simps ball_simps simp_thms)
next
  case 4
  show ?case by simp
qed

lemma Suc3_div_mod: "Suc (Suc (Suc n)) div 3 = Suc (n div 3)" "Suc (Suc (Suc n)) mod 3 = n mod 3"
proof -
  have e: "Suc (Suc (Suc n)) = n + 3" by simp
  show "Suc (Suc (Suc n)) div 3 = Suc (n div 3)" unfolding e by simp
  show "Suc (Suc (Suc n)) mod 3 = n mod 3" unfolding e by simp
qed

lemma length_sextets:
  "length (sextets bs) = 4 * (length bs div 3) + (if length bs mod 3 = 0 then 0 else length bs mod 3 + 1)"
proof (induction bs rule: sextets.induct)
  case (1 a b c rest)
  have "length (sextets (a # b # c # rest)) = 4 + length (sextets rest)"
    by simp
  moreover have "length (a # b # c # rest) = Suc (Suc (Suc (length rest)))"
    by simp
  ultimately show ?case
    using 1 by (simp only: Suc3_div_mod) simp
next
  case (2 a b)
  show ?case by simp
next
  case (3 a)
  show ?case by simp
next
  case 4
  show ?case by simp
qed

lemma mod3_cases: "(n::nat) mod 3 = 0 \<or> n mod 3 = 1 \<or> n mod 3 = 2"
  by presburger

lemma length_sextets_pad:
  "(length (sextets bs) + (3 - length bs mod 3) mod 3) mod 4 = 0"
  "length (sextets bs) mod 4 \<noteq> 1"
  using mod3_cases [of "length bs"] by (auto simp: length_sextets)


lemma b64_values_chars: "\<forall>v\<in>set vs. v < 64 \<Longrightarrow> b64_values (map b64_char vs) = Some vs"
  by (induction vs) (simp_all add: b64_value_char)

lemma pad_not_ws: "\<not> is_ascii_whitespace pad_char"
  by (simp add: is_ascii_whitespace_def pad_char_def)

lemma filter_ws_encoded:
  "\<forall>v\<in>set vs. v < 64 \<Longrightarrow>
   filter (\<lambda>c. \<not> is_ascii_whitespace c) (map b64_char vs @ replicate k pad_char)
     = map b64_char vs @ replicate k pad_char"
  by (simp add: filter_id_conv b64_char_not_ws pad_not_ws)

lemma strip_padding_encoded:
  assumes k: "k \<le> 2" and len: "(length cs + k) mod 4 = 0"
    and nopad: "\<forall>c\<in>set cs. c \<noteq> pad_char"
  shows "strip_padding (cs @ replicate k pad_char) = cs"
proof -
  have lastcs: "cs \<noteq> [] \<Longrightarrow> last cs \<noteq> pad_char"
    using nopad last_in_set by blast
  consider "k = 0" | "k = 1" | "k = 2" using k by linarith
  then show ?thesis
  proof cases
    case 1
    then show ?thesis using lastcs by (auto simp: strip_padding_def)
  next
    case 2
    then have ne: "cs \<noteq> []" using len by auto
    show ?thesis using 2 len lastcs ne by (simp add: strip_padding_def)
  next
    case 3
    have r: "replicate k pad_char = [pad_char, pad_char]"
      using 3 by (simp add: numeral_2_eq_2)
    have b1: "butlast (cs @ [pad_char, pad_char]) = cs @ [pad_char]"
      by (simp add: butlast_append)
    show ?thesis
      unfolding r strip_padding_def b1 using 3 len by simp
  qed
qed

lemma atob_encoded:
  assumes "\<forall>b\<in>set bs. b < 256"
  shows "atob (map b64_char (sextets bs) @ replicate ((3 - length bs mod 3) mod 3) pad_char)
           = Inr (map of_nat bs)"
proof -
  let ?k = "(3 - length bs mod 3) mod 3"
  let ?cs = "map b64_char (sextets bs)"
  have v: "\<forall>v\<in>set (sextets bs). v < 64" using assms by (rule sextets_lt_64)
  have f: "filter (\<lambda>c. \<not> is_ascii_whitespace c) (?cs @ replicate ?k pad_char)
            = ?cs @ replicate ?k pad_char"
    using v by (rule filter_ws_encoded)
  have "?k \<le> 2" by simp
  moreover have "(length ?cs + ?k) mod 4 = 0" using length_sextets_pad(1) by simp
  moreover have "\<forall>c\<in>set ?cs. c \<noteq> pad_char" using v b64_char_not_pad by auto
  ultimately have s: "strip_padding (?cs @ replicate ?k pad_char) = ?cs"
    by (rule strip_padding_encoded)
  have l: "length ?cs mod 4 \<noteq> 1" using length_sextets_pad(2) by simp
  show ?thesis
    unfolding atob_def f s Let_def
    using l by (simp add: b64_values_chars [OF v] octets_sextets [OF assms])
qed

lemma unat_byte_lt: "unat (b :: byte) < 256"
  using unsigned_less [of b, where 'a = nat] by simp

lemma unat_ucast_byte: "unat (ucast (b :: byte) :: code_unit) = unat b"
proof -
  have "unat b < 2 ^ 16" using unat_byte_lt [of b] by simp
  then show ?thesis by (simp add: unsigned_ucast_eq take_bit_nat_eq_self)
qed

lemma ucast_byte_le: "(ucast (b :: byte) :: code_unit) \<le> 255"
  using unat_byte_lt [of b] by (simp add: word_le_nat_alt unat_ucast_byte)

lemma byte_via_code_unit:
  "(ucast (of_nat (unat (ucast (b :: byte) :: code_unit)) :: code_unit) :: byte) = b"
  by (simp add: ucast_up_ucast_id is_up)

lemma encode_result:
  "encode bytes = Inr (map b64_char (sextets (map unat bytes))
                        @ replicate ((3 - length bytes mod 3) mod 3) pad_char)"
proof -
  have "\<not> list_ex (\<lambda>c. 255 < c) (map ucast bytes :: jsstring)"
    using ucast_byte_le by (auto simp: list_ex_iff not_less)
  moreover have "unat \<circ> (ucast :: byte \<Rightarrow> code_unit) = unat"
    by (rule ext) (simp add: unat_ucast_byte)
  ultimately show ?thesis by (simp add: encode_def btoa_def)
qed

lemma decode_encoded:
  "decode (map b64_char (sextets (map unat bytes))
           @ replicate ((3 - length bytes mod 3) mod 3) pad_char) = Inr bytes"
proof -
  have lt: "\<forall>b\<in>set (map unat bytes). b < 256"
    using unat_byte_lt by auto
  have "(map ucast (map of_nat (map unat bytes) :: jsstring) :: byte list) = bytes"
    by (simp add: map_idI ucast_up_ucast_id is_up comp_def)
  then show ?thesis
    using atob_encoded [OF lt] by (simp add: decode_def)
qed

text \<open>
  Claim C9. For every byte array, \<^verbatim>\<open>encode\<close> returns a string (it never throws), and
  \<^verbatim>\<open>decode\<close> of that string returns the same bytes, in number and element by element.
\<close>

theorem base64_round_trip: "\<exists>s. encode bytes = Inr s \<and> decode s = Inr bytes"
  using encode_result decode_encoded by blast

section \<open>Sample conversion and the audio round trip\<close>

lemma int16_of_bytes: "ucast (ucast w :: byte) OR push_bit 8 (ucast (ucast (drop_bit 8 w) :: byte)) = (w :: int16)"
  by (rule bit_word_eqI) (auto simp: bit_simps)

lemma int16_view_buffer_bytes: "int16_view (buffer_bytes ws) = ws"
  by (induction ws) (simp_all add: buffer_bytes_def int16_bytes_def int16_of_bytes)

lemma length_buffer_bytes: "length (buffer_bytes ws) = 2 * length ws"
  by (induction ws) (simp_all add: buffer_bytes_def int16_bytes_def)

lemma new_Int16Array_buffer_bytes: "new_Int16Array (buffer_bytes ws) = Inr ws"
  by (simp add: new_Int16Array_def length_buffer_bytes int16_view_buffer_bytes)

lemma length_int16_view: "length (int16_view bs) = length bs div 2"
  by (induction bs rule: int16_view.induct) simp_all

lemma createBlob_result:
  "\<exists>s. createBlob samples = Inr \<lparr>data = s, mimeType = ''audio/pcm;rate=16000''\<rparr>
       \<and> decode s = Inr (buffer_bytes (createBlob_int16 samples))"
proof -
  obtain s where "encode (buffer_bytes (createBlob_int16 samples)) = Inr s"
    and "decode s = Inr (buffer_bytes (createBlob_int16 samples))"
    using encode_result decode_encoded by blast
  then show ?thesis by (simp add: createBlob_def)
qed

lemma map_over_indices: "map (\<lambda>i. f (xs ! i)) [0..<length xs] = map f xs"
  by (rule nth_equalityI) simp_all

lemma decodeAudioData_mono:
  assumes "ws \<noteq> []"
  shows "decodeAudioData (buffer_bytes ws) 24000 1 =
     Inr \<lparr>numberOfChannels = 1, frames = length ws, sampleRate = 24000,
          channels = [map (\<lambda>w. real_of_int (sint w) / 32768) ws]\<rparr>"
  using assms
  by (simp add: decodeAudioData_def new_Int16Array_buffer_bytes createBuffer_def Let_def)
    (rule map_over_indices)

lemma encode_then_decode_eq:
  "encode_then_decode samples =
     (if samples = [] then Inl NotSupportedError
      else Inr \<lparr>numberOfChannels = 1, frames = length samples, sampleRate = 24000,
                channels = [map (\<lambda>x. real_of_int (sint (ToInt16 (x * 32768))) / 32768) samples]\<rparr>)"
proof -
  obtain s where s: "createBlob samples = Inr \<lparr>data = s, mimeType = ''audio/pcm;rate=16000''\<rparr>"
    "decode s = Inr (buffer_bytes (createBlob_int16 samples))"
    using createBlob_result by blast
  show ?thesis
  proof (cases "samples = []")
    case True
    then show ?thesis
      using s by (simp add: encode_then_decode_def createBlob_int16_def buffer_bytes_def
          decodeAudioData_def new_Int16Array_def createBuffer_def)
  next
    case False
    then have "createBlob_int16 samples \<noteq> []" by (simp add: createBlob_int16_def)
    from decodeAudioData_mono [OF this] False s show ?thesis
      by (simp add: encode_then_decode_def createBlob_int16_def comp_def)
  qed
qed

lemma sint_word_of_int_16: "sint (word_of_int k :: int16) = (k + 32768) mod 65536 - 32768"
  by (simp add: sint_sbintrunc' signed_take_bit_eq_take_bit_shift take_bit_eq_mod)

lemma truncate_real_spec: "truncate_real y = spec_truncate y"
  by (simp add: truncate_real_def spec_truncate_def ceiling_def)

lemma sint_ToInt16: "sint (ToInt16 y) = spec_wrap_int16 (spec_truncate y)"
  by (simp add: ToInt16_def sint_word_of_int_16 spec_wrap_int16_def truncate_real_spec)

text \<open>
  Claim C7. The 16-bit values that \<^verbatim>\<open>createBlob\<close> stores, read as signed integers, are
  for every sample \<open>x\<close>, inside or outside \<open>[-1, 1]\<close>, the number \<open>x * 32768\<close> truncated
  towards zero and reduced modulo \<open>2^16\<close> into the signed 16-bit range: nothing is
  clamped, an out-of-range sample wraps. These values, low byte first, are the bytes
  that the payload of the blob carries in base64.
\<close>

theorem createBlob_sample_encoding:
  "map sint (createBlob_int16 samples) = map spec_sample_encoding samples \<and>
   (\<exists>s. createBlob samples = Inr \<lparr>data = s, mimeType = ''audio/pcm;rate=16000''\<rparr>
        \<and> decode s = Inr (buffer_bytes (createBlob_int16 samples)))"
  using createBlob_result [of samples]
  by (simp add: createBlob_int16_def spec_sample_encoding_def sint_ToInt16)


text \<open>
  Claim C8. A captured frame of \<open>n\<close> zero samples (a frame has at least one sample; the
  script processor delivers 4096) is encoded and decoded to a buffer of exactly \<open>n\<close>
  zero samples.
\<close>

theorem silent_frame_round_trip:
  "0 < n \<Longrightarrow>
   encode_then_decode (replicate n 0) =
     Inr \<lparr>numberOfChannels = 1, frames = n, sampleRate = 24000, channels = [replicate n 0]\<rparr>"
  by (simp add: encode_then_decode_eq ToInt16_def truncate_real_def map_replicate_const)

theorem silent_frame_round_trip_witness:
  "encode_then_decode (replicate 4096 0) =
     Inr \<lparr>numberOfChannels = 1, frames = 4096, sampleRate = 24000,
          channels = [replicate 4096 0]\<rparr>"
  by (rule silent_frame_round_trip) simp

lemma truncate_real_bounds:
  assumes "- 32768 \<le> y" "y < 32768"
  shows "- 32768 \<le> truncate_real y" "truncate_real y \<le> 32767"
    "\<bar>real_of_int (truncate_real y) - y\<bar> < 1"
  using assms unfolding truncate_real_def by (auto simp: abs_if) linarith+

lemma sample_error:
  assumes "- 1 \<le> x" "x < 1"
  shows "\<bar>real_of_int (sint (ToInt16 (x * 32768))) / 32768 - x\<bar> < 1 / 32768"
proof -
  let ?y = "x * 32768"
  let ?k = "truncate_real ?y"
  have y: "- 32768 \<le> ?y" "?y < 32768" using assms by simp_all
  note b = truncate_real_bounds [OF y]
  have "sint (ToInt16 ?y) = ?k"
    using b(1,2) by (simp add: ToInt16_def sint_word_of_int_16)
  moreover have "\<bar>real_of_int ?k / 32768 - x\<bar> = \<bar>real_of_int ?k - ?y\<bar> / 32768"
    by (simp add: abs_if field_simps)
  ultimately show ?thesis using b(3) by simp
qed

text \<open>
  Claim C2, amended. For a frame that is not empty and whose samples lie in \<open>[-1, 1)\<close>,
  encoding followed by decoding returns a buffer with one channel of the same length in
  which every sample differs from the original by less than one quantization step,
  \<open>1/32768\<close>. The upper end 1 is excluded.
\<close>

theorem round_trip_below_one:
  assumes "samples \<noteq> []" and "\<forall>x\<in>set samples. - 1 \<le> x \<and> x < 1"
  shows "\<exists>buf ys. encode_then_decode samples = Inr buf \<and> channels buf = [ys]
           \<and> length ys = length samples
           \<and> (\<forall>i<length samples. \<bar>ys ! i - samples ! i\<bar> < 1 / 32768)"
proof -
  let ?ys = "map (\<lambda>x. real_of_int (sint (ToInt16 (x * 32768))) / 32768) samples"
  let ?buf = "\<lparr>numberOfChannels = 1, frames = length samples, sampleRate = 24000,
               channels = [?ys]\<rparr>"
  have e: "encode_then_decode samples = Inr ?buf"
    using assms(1) by (simp add: encode_then_decode_eq)
  have b: "\<forall>i<length samples. \<bar>?ys ! i - samples ! i\<bar> < 1 / 32768"
  proof (intro allI impI)
    fix i
    assume i: "i < length samples"
    then have "samples ! i \<in> set samples" by simp
    with assms(2) have "- 1 \<le> samples ! i" "samples ! i < 1" by auto
    from sample_error [OF this] i show "\<bar>?ys ! i - samples ! i\<bar> < 1 / 32768"
      by (simp only: nth_map)
  qed
  have "encode_then_decode samples = Inr ?buf \<and> channels ?buf = [?ys]
          \<and> length ?ys = length samples
          \<and> (\<forall>i<length samples. \<bar>?ys ! i - samples ! i\<bar> < 1 / 32768)"
    using e b by simp
  then show ?thesis by blast
qed

theorem round_trip_below_one_witness:
  "\<exists>buf ys. encode_then_decode [1 / 3, - 1, 0] = Inr buf \<and> channels buf = [ys]
       \<and> length ys = 3
       \<and> \<bar>ys ! 0 - 1 / 3\<bar> < 1 / 32768 \<and> \<bar>ys ! 1 - (- 1)\<bar> < 1 / 32768
       \<and> \<bar>ys ! 2 - 0\<bar> < 1 / 32768"
proof -
  have "[1 / 3, - 1, 0 :: real] \<noteq> []" by simp
  moreover have "\<forall>x\<in>set [1 / 3, - 1, 0 :: real]. - 1 \<le> x \<and> x < 1" by simp
  ultimately obtain buf ys where r: "encode_then_decode [1 / 3, - 1, 0] = Inr buf"
    "channels buf = [ys]" "length ys = length [1 / 3, - 1, 0 :: real]"
    "\<forall>i<length [1 / 3, - 1, 0 :: real]. \<bar>ys ! i - [1 / 3, - 1, 0] ! i\<bar> < 1 / 32768"
    using round_trip_below_one [of "[1 / 3, - 1, 0]"] by blast
  have "\<bar>ys ! 0 - 1 / 3\<bar> < 1 / 32768" using r(4) [rule_format, of 0] by simp
  moreover have "\<bar>ys ! 1 - (- 1)\<bar> < 1 / 32768" using r(4) [rule_format, of 1] by simp
  moreover have "\<bar>ys ! 2 - 0\<bar> < 1 / 32768" using r(4) [rule_format, of 2] by simp
  ultimately show ?thesis using r(1,2,3) by auto
qed

text \<open>
  The sample 1.0 lies in the normalized range; \<open>1.0 * 32768 = 32768\<close> does not fit a
  signed 16-bit integer and wraps to \<open>-32768\<close>, so the sample comes back as \<open>-1.0\<close>:
  an error of 2.
\<close>

theorem round_trip_at_one:
  "encode_then_decode [1] =
     Inr \<lparr>numberOfChannels = 1, frames = 1, sampleRate = 24000, channels = [[- 1]]\<rparr>
   \<and> \<not> \<bar>(- 1 :: real) - 1\<bar> \<le> 1 / 32768"
  by (simp add: encode_then_decode_eq ToInt16_def truncate_real_def)

text \<open>
  Claim C10, amended. On the receive path (one channel at 24000 Hz) \<^verbatim>\<open>decodeAudioData\<close>
  fails with a RangeError of the \<^verbatim>\<open>Int16Array\<close> constructor for every byte sequence of
  odd length, and the handler of a message whose payload decodes to such bytes starts no
  buffer; it fails as well for the empty byte sequence, where \<^verbatim>\<open>createBuffer\<close>
  refuses a buffer of zero frames; for every even length other than zero it returns a
  buffer of exactly half as many samples as there are bytes.
\<close>

theorem decodeAudioData_lengths:
  "(odd (length bytes) \<longrightarrow>
      decodeAudioData bytes 24000 1 = Inl RangeError
      \<and> (\<forall>call t p st. decode p = Inr bytes \<longrightarrow>
             started (onmessage call t (Some p) st) = started st))
   \<and> (bytes = [] \<longrightarrow> decodeAudioData bytes 24000 1 = Inl NotSupportedError)
   \<and> (even (length bytes) \<and> bytes \<noteq> [] \<longrightarrow>
        (\<exists>buf. decodeAudioData bytes 24000 1 = Inr buf
             \<and> map length (channels buf) = [length bytes div 2]
             \<and> frames buf = length bytes div 2))"
proof -
  have "bytes \<noteq> [] \<Longrightarrow> even (length bytes) \<Longrightarrow> length bytes div 2 \<noteq> 0"
    by (cases bytes) auto
  moreover have "started (onmessage call t (Some p) st) = started st"
    if "odd (length bytes)" "decode p = Inr bytes" for call t p st
    using that
    by (simp add: onmessage_def onmessage_begin_def decodeAudioData_def new_Int16Array_def)
  ultimately show ?thesis
    by (auto simp: decodeAudioData_def new_Int16Array_def createBuffer_def Let_def
        length_int16_view)
qed

text \<open>
  The empty byte sequence has even length, and no buffer is produced for it.
\<close>

theorem decodeAudioData_empty: "decodeAudioData [] 24000 1 = Inl NotSupportedError"
  by (simp add: decodeAudioData_def new_Int16Array_def createBuffer_def)

theorem decodeAudioData_lengths_witness:
  "decodeAudioData [1, 2, 3] 24000 1 = Inl RangeError
   \<and> decode [65, 65, 61, 61] = Inr [0]
   \<and> started (onmessage \<lparr>inputCtx = 0, outputCtx = 1\<rparr> 0 (Some [65, 65, 61, 61]) init_bridge)
       = []
   \<and> (\<exists>buf. decodeAudioData [0, 128] 24000 1 = Inr buf
        \<and> map length (channels buf) = [1] \<and> frames buf = 1)"
proof -
  have d: "decode [65, 65, 61, 61] = Inr [0]"
    by (simp add: decode_def atob_def strip_padding_def is_ascii_whitespace_def pad_char_def
        b64_value_def)
  have "odd (length [0 :: byte])" by simp
  with decodeAudioData_lengths [of "[0]"] d
  have "started (onmessage \<lparr>inputCtx = 0, outputCtx = 1\<rparr> 0 (Some [65, 65, 61, 61]) init_bridge)
      = started init_bridge"
    by blast
  then show ?thesis
    using d decodeAudioData_lengths [of "[1, 2, 3]"] decodeAudioData_lengths [of "[0, 128]"]
    by (simp add: init_bridge_def)
qed

section \<open>Playback scheduling\<close>

lemma back_to_back_until_append:
  "back_to_back_until t xs u \<Longrightarrow> back_to_back_until u ys v \<Longrightarrow> back_to_back_until t (xs @ ys) v"
proof (induction xs arbitrary: t)
  case Nil
  then show ?case by (cases ys) auto
next
  case (Cons x xs)
  then show ?case by (cases x) auto
qed

lemma back_to_back_until_imp:
  "back_to_back_until t xs u \<Longrightarrow> back_to_back t xs \<and> t \<le> u"
proof (induction xs arbitrary: t)
  case Nil
  then show ?case by simp
next
  case (Cons x xs)
  then show ?case by (cases x) fastforce
qed

lemma back_to_back_sorted:
  "back_to_back t xs \<Longrightarrow> sorted (map (\<lambda>(c, s, d). s) xs) \<and> (\<forall>x\<in>set xs. t \<le> fst (snd x))"
proof (induction xs arbitrary: t)
  case Nil
  then show ?case by simp
next
  case (Cons x xs)
  obtain c s d where x: "x = (c, s, d)" by (cases x)
  from Cons.prems x have b: "t \<le> s" "0 < d" "back_to_back (s + d) xs" by simp_all
  from Cons.IH [OF b(3)] have "sorted (map (\<lambda>(c, s, d). s) xs)"
    and "\<forall>y\<in>set xs. s + d \<le> fst (snd y)" by simp_all
  with b x show ?case by (auto simp: case_prod_unfold)
qed

lemma duration_positive:
  "decodeAudioData bytes 24000 1 = Inr buf \<Longrightarrow> 0 < duration buf"
  by (auto simp: decodeAudioData_def createBuffer_def duration_def Let_def
      split: sum.splits if_splits)

lemma onmessage_begin_marker:
  assumes "onmessage_begin t a st = (st1, r)"
  shows "started st1 = started st" and "nextStartTime st \<le> nextStartTime st1"
    and "\<forall>b. r = Some b \<longrightarrow> 0 < duration b"
proof -
  have "started st1 = started st \<and> nextStartTime st \<le> nextStartTime st1
      \<and> (\<forall>b. r = Some b \<longrightarrow> 0 < duration b)"
  proof (cases a)
    case None
    with assms show ?thesis by (simp add: onmessage_begin_def)
  next
    case (Some p)
    show ?thesis
    proof (cases "p = []")
      case True
      with Some assms show ?thesis by (simp add: onmessage_begin_def)
    next
      case False
      show ?thesis
      proof (cases "decode p")
        case (Inl e)
        with Some False assms show ?thesis by (auto simp: onmessage_begin_def)
      next
        case (Inr bytes)
        show ?thesis
        proof (cases "decodeAudioData bytes 24000 1")
          case (Inl e)
          with Some False Inr assms show ?thesis by (auto simp: onmessage_begin_def)
        next
          case r: (Inr buf)
          from duration_positive [OF r] Some False Inr r assms show ?thesis
            by (auto simp: onmessage_begin_def)
        qed
      qed
    qed
  qed
  then show "started st1 = started st" and "nextStartTime st \<le> nextStartTime st1"
    and "\<forall>b. r = Some b \<longrightarrow> 0 < duration b" by simp_all
qed

lemma onmessage_resume_schedule:
  assumes "0 < duration b"
  shows "started (onmessage_resume call b st) = started st @ [(outputCtx call, nextStartTime st, duration b)]"
    and "back_to_back_until (nextStartTime st) [(outputCtx call, nextStartTime st, duration b)]
           (nextStartTime (onmessage_resume call b st))"
  using assms by (simp_all add: onmessage_resume_def)

lemma onmessage_schedule:
  "\<exists>new. started (onmessage call t a st) = started st @ new
      \<and> back_to_back_until (nextStartTime st) new (nextStartTime (onmessage call t a st))"
proof -
  obtain st1 r where b: "onmessage_begin t a st = (st1, r)" by (cases "onmessage_begin t a st")
  note m = onmessage_begin_marker [OF b]
  show ?thesis
  proof (cases r)
    case None
    with b m show ?thesis by (simp add: onmessage_def)
  next
    case (Some buf)
    with m(3) have d: "0 < duration buf" by simp
    from onmessage_resume_schedule [OF d, where call = call and st = st1] m(1,2) b Some
    show ?thesis
      by (simp add: onmessage_def)
  qed
qed

lemma receive_schedule:
  "\<exists>new. started (receive call msgs st) = started st @ new
      \<and> back_to_back_until (nextStartTime st) new (nextStartTime (receive call msgs st))"
proof (induction msgs arbitrary: st)
  case Nil
  show ?case by simp
next
  case (Cons m msgs)
  obtain t a where m: "m = (t, a)" by (cases m)
  let ?st1 = "onmessage call t a st"
  obtain n1 where n1: "started ?st1 = started st @ n1"
    "back_to_back_until (nextStartTime st) n1 (nextStartTime ?st1)"
    using onmessage_schedule by blast
  obtain n2 where n2: "started (receive call msgs ?st1) = started ?st1 @ n2"
    "back_to_back_until (nextStartTime ?st1) n2 (nextStartTime (receive call msgs ?st1))"
    using Cons.IH by blast
  have "started (receive call (m # msgs) st) = started st @ (n1 @ n2)"
    using m n1(1) n2(1) by simp
  moreover have "back_to_back_until (nextStartTime st) (n1 @ n2)
      (nextStartTime (receive call (m # msgs) st))"
    using back_to_back_until_append [OF n1(2) n2(2)] m by simp
  ultimately show ?case by blast
qed

lemma receive_append: "receive call (xs @ ys) st = receive call ys (receive call xs st)"
  by (induction xs arbitrary: st) auto

lemma receive_marker_mono:
  assumes "j \<le> k"
  shows "nextStartTime (receive call (take j msgs) st) \<le> nextStartTime (receive call (take k msgs) st)"
proof -
  have "take k msgs = take j msgs @ take (k - j) (drop j msgs)"
    using assms by (metis le_add_diff_inverse take_add)
  then have "receive call (take k msgs) st
      = receive call (take (k - j) (drop j msgs)) (receive call (take j msgs) st)"
    by (simp add: receive_append)
  then show ?thesis
    using receive_schedule [of call "take (k - j) (drop j msgs)" "receive call (take j msgs) st"]
      back_to_back_until_imp by metis
qed

text \<open>
  Claim C1. Whatever the messages, their payloads and the clock readings, when the
  handler processes the messages in the order of arrival: the buffers it starts are
  scheduled back to back, each start being at least the start of the buffer before it
  plus that buffer's duration, so the start times are non-decreasing; the marker
  \<^verbatim>\<open>nextStartTime\<close> never decreases from one message to a later one; and for a
  message whose payload decodes, the start is the maximum of the marker (the end
  scheduled so far) and the clock, and the marker becomes that start plus the duration.
  Times are reals here; the two operations involved, a maximum and the addition of a
  positive duration, do not decrease a value under IEEE rounding either.
\<close>

lemma interleaved_schedule:
  assumes "\<forall>b\<in>set q. 0 < duration b"
  shows "\<exists>new. started (fst (interleaved call turns (st, q))) = started st @ new
      \<and> back_to_back_until (nextStartTime st) new
            (nextStartTime (fst (interleaved call turns (st, q))))"
  using assms
proof (induction turns arbitrary: st q)
  case Nil
  show ?case by simp
next
  case (Cons x turns)
  show ?case
  proof (cases x)
    case (Arrive t a)
    obtain st1 r where b: "onmessage_begin t a st = (st1, r)"
      by (cases "onmessage_begin t a st")
    note m = onmessage_begin_marker [OF b]
    let ?q = "case r of None \<Rightarrow> q | Some buf \<Rightarrow> q @ [buf]"
    have q: "\<forall>b\<in>set ?q. 0 < duration b"
      using Cons.prems m(3) by (cases r) auto
    have step: "interleaved call (x # turns) (st, q) = interleaved call turns (st1, ?q)"
      using Arrive b by (cases r) simp_all
    obtain new where n: "started (fst (interleaved call turns (st1, ?q))) = started st1 @ new"
      "back_to_back_until (nextStartTime st1) new
         (nextStartTime (fst (interleaved call turns (st1, ?q))))"
      using Cons.IH [OF q] by blast
    have "back_to_back_until (nextStartTime st) [] (nextStartTime st1)"
      using m(2) by simp
    from back_to_back_until_append [OF this n(2)] n(1) m(1) step show ?thesis
      by auto
  next
    case Resume
    show ?thesis
    proof (cases q)
      case Nil
      with Resume Cons.IH [of "[]" st] show ?thesis by simp
    next
      case (Cons b rest)
      with Cons.prems have d: "0 < duration b" and r: "\<forall>b\<in>set rest. 0 < duration b"
        by simp_all
      let ?st1 = "onmessage_resume call b st"
      obtain new where n: "started (fst (interleaved call turns (?st1, rest))) = started ?st1 @ new"
        "back_to_back_until (nextStartTime ?st1) new
           (nextStartTime (fst (interleaved call turns (?st1, rest))))"
        using Cons.IH [OF r] by blast
      note s = onmessage_resume_schedule [OF d, where call = call and st = st]
      have "started (fst (interleaved call (x # turns) (st, q)))
          = started st @ ((outputCtx call, nextStartTime st, duration b) # new)"
        using Resume Cons n(1) s(1) by simp
      moreover have "back_to_back_until (nextStartTime st)
          ((outputCtx call, nextStartTime st, duration b) # new)
          (nextStartTime (fst (interleaved call (x # turns) (st, q))))"
        using back_to_back_until_append [OF s(2) n(2)] Resume Cons by simp
      ultimately show ?thesis by blast
    qed
  qed
qed

lemma receive_as_interleaved:
  "interleaved call (concat (map (\<lambda>(t, a). [Arrive t a, Resume]) msgs)) (st, [])
     = (receive call msgs st, [])"
proof (induction msgs arbitrary: st)
  case Nil
  show ?case by simp
next
  case (Cons m msgs)
  obtain t a where m: "m = (t, a)" by (cases m)
  obtain st1 r where b: "onmessage_begin t a st = (st1, r)"
    by (cases "onmessage_begin t a st")
  show ?case
    using m b Cons.IH by (cases r) (simp_all add: onmessage_def)
qed

text \<open>
  Claim C1. Whatever the messages, their payloads and the clock readings: when the
  handler processes the messages in the order of arrival, the buffers it starts are
  scheduled back to back, each start being at least the start of the buffer before it
  plus that buffer's duration, so the start times are non-decreasing; the marker
  \<^verbatim>\<open>nextStartTime\<close> never decreases from one message to a later one; and for a
  message whose payload decodes, the start is the maximum of the marker (the end
  scheduled so far) and the clock, and the marker becomes that start plus the duration.
  The last part says that the schedule has the same properties when messages arrive
  while earlier handlers are still suspended at their \<^verbatim>\<open>await\<close>, in any interleaving.
  Times are reals here; the two operations involved, a maximum and the addition of a
  positive duration, do not decrease a value under IEEE rounding either.
\<close>

theorem playback_schedule:
  "(\<exists>new. started (receive call msgs st) = started st @ new
       \<and> back_to_back (nextStartTime st) new
       \<and> sorted (map (\<lambda>(c, s, d). s) new))
   \<and> (\<forall>j k. j \<le> k \<longrightarrow>
         nextStartTime (receive call (take j msgs) st)
           \<le> nextStartTime (receive call (take k msgs) st))
   \<and> (\<forall>t p bytes buf.
         p \<noteq> [] \<and> decode p = Inr bytes \<and> decodeAudioData bytes 24000 1 = Inr buf \<longrightarrow>
         started (onmessage call t (Some p) st)
           = started st @ [(outputCtx call, max (nextStartTime st) t, duration buf)]
         \<and> nextStartTime (onmessage call t (Some p) st)
           = max (nextStartTime st) t + duration buf)
   \<and> (\<exists>new. started (fst (interleaved call turns (st, []))) = started st @ new
       \<and> back_to_back (nextStartTime st) new
       \<and> sorted (map (\<lambda>(c, s, d). s) new)
       \<and> nextStartTime st \<le> nextStartTime (fst (interleaved call turns (st, []))))"
proof (intro conjI)
  obtain new where n: "started (receive call msgs st) = started st @ new"
    "back_to_back_until (nextStartTime st) new (nextStartTime (receive call msgs st))"
    using receive_schedule by blast
  from back_to_back_until_imp [OF n(2)] have b: "back_to_back (nextStartTime st) new" by simp
  from back_to_back_sorted [OF b] n(1) b
  show "\<exists>new. started (receive call msgs st) = started st @ new
       \<and> back_to_back (nextStartTime st) new
       \<and> sorted (map (\<lambda>(c, s, d). s) new)" by blast
next
  show "\<forall>j k. j \<le> k \<longrightarrow>
         nextStartTime (receive call (take j msgs) st)
           \<le> nextStartTime (receive call (take k msgs) st)"
    using receive_marker_mono by blast
next
  show "\<forall>t p bytes buf.
         p \<noteq> [] \<and> decode p = Inr bytes \<and> decodeAudioData bytes 24000 1 = Inr buf \<longrightarrow>
         started (onmessage call t (Some p) st)
           = started st @ [(outputCtx call, max (nextStartTime st) t, duration buf)]
         \<and> nextStartTime (onmessage call t (Some p) st)
           = max (nextStartTime st) t + duration buf"
    by (simp add: onmessage_def onmessage_begin_def onmessage_resume_def)
next
  have "\<forall>b\<in>set ([] :: audio_buffer list). 0 < duration b" by simp
  from interleaved_schedule [OF this, of call turns st]
  obtain new where n: "started (fst (interleaved call turns (st, []))) = started st @ new"
    "back_to_back_until (nextStartTime st) new
       (nextStartTime (fst (interleaved call turns (st, []))))"
    by blast
  from back_to_back_until_imp [OF n(2)] have b: "back_to_back (nextStartTime st) new"
    and l: "nextStartTime st \<le> nextStartTime (fst (interleaved call turns (st, [])))"
    by simp_all
  from back_to_back_sorted [OF b] n(1) b l
  show "\<exists>new. started (fst (interleaved call turns (st, []))) = started st @ new
       \<and> back_to_back (nextStartTime st) new
       \<and> sorted (map (\<lambda>(c, s, d). s) new)
       \<and> nextStartTime st \<le> nextStartTime (fst (interleaved call turns (st, [])))"
    by blast
qed

lemma decode_example: "decode [65, 73, 65, 65, 81, 65, 61, 61] = Inr [0, 128, 0, 64]"
  by (simp add: decode_def atob_def strip_padding_def is_ascii_whitespace_def pad_char_def
      b64_value_def)

lemma decodeAudioData_example:
  "decodeAudioData [0, 128, 0, 64] 24000 1 =
     Inr \<lparr>numberOfChannels = 1, frames = 2, sampleRate = 24000, channels = [[- 1, 1 / 2]]\<rparr>"
  by (simp add: decodeAudioData_def new_Int16Array_def createBuffer_def Let_def upt_rec)

theorem playback_schedule_witness:
  "started (receive \<lparr>inputCtx = 0, outputCtx = 1\<rparr>
              [(1 / 2, Some [65, 73, 65, 65, 81, 65, 61, 61]),
               (1 / 4, Some [65, 73, 65, 65, 81, 65, 61, 61])] init_bridge)
     = [(1, 1 / 2, 1 / 12000), (1, 6001 / 12000, 1 / 12000)]
   \<and> back_to_back 0 [(1, 1 / 2, 1 / 12000), (1, 6001 / 12000, 1 / 12000)]
   \<and> nextStartTime (onmessage \<lparr>inputCtx = 0, outputCtx = 1\<rparr> (1 / 2)
                       (Some [65, 73, 65, 65, 81, 65, 61, 61]) init_bridge) = 6001 / 12000"
proof -
  let ?c = "\<lparr>inputCtx = 0, outputCtx = 1\<rparr>"
  let ?p = "[65, 73, 65, 65, 81, 65, 61, 61] :: jsstring"
  let ?buf = "\<lparr>numberOfChannels = 1, frames = 2, sampleRate = 24000,
               channels = [[- 1, 1 / 2]]\<rparr>"
  have h: "?p \<noteq> [] \<and> decode ?p = Inr [0, 128, 0, 64]
            \<and> decodeAudioData [0, 128, 0, 64] 24000 1 = Inr ?buf"
    using decode_example decodeAudioData_example by simp
  have d: "duration ?buf = 1 / 12000" by (simp add: duration_def)
  have n0: "nextStartTime init_bridge = 0" "started init_bridge = []"
    by (simp_all add: init_bridge_def)
  from playback_schedule [of ?c "[]" init_bridge "[]"] h
  have s1: "started (onmessage ?c (1 / 2) (Some ?p) init_bridge)
              = started init_bridge @ [(outputCtx ?c, max (nextStartTime init_bridge) (1 / 2), duration ?buf)]"
    and m1: "nextStartTime (onmessage ?c (1 / 2) (Some ?p) init_bridge)
              = max (nextStartTime init_bridge) (1 / 2) + duration ?buf"
    by blast+
  let ?st1 = "onmessage ?c (1 / 2) (Some ?p) init_bridge"
  from playback_schedule [of ?c "[]" ?st1 "[]"] h
  have s2: "started (onmessage ?c (1 / 4) (Some ?p) ?st1)
              = started ?st1 @ [(outputCtx ?c, max (nextStartTime ?st1) (1 / 4), duration ?buf)]"
    by blast
  show ?thesis
    using s1 m1 s2 by (simp add: duration_def n0)
qed


section \<open>Start, stop and failures\<close>

lemma length_release [simp]: "length (release h p) = length p"
  by (simp add: release_def)

lemma length_release_opt [simp]: "length (release_opt v p) = length p"
  by (simp add: release_opt_def split: option.splits)

lemma alive_release: "alive (release h p) k \<longleftrightarrow> alive p k \<and> k \<noteq> h"
  by (auto simp: alive_def release_def nth_list_update)

lemma alive_release_opt: "alive (release_opt v p) k \<longleftrightarrow> alive p k \<and> v \<noteq> Some k"
  by (auto simp: release_opt_def alive_release split: option.splits)

lemma release_idem: "release h (release h p) = release h p"
  by (simp add: release_def)

lemma release_commute: "release h (release k p) = release k (release h p)"
  by (cases "h = k") (auto simp: release_def list_update_swap nth_list_update)

lemma release_opt_idem: "release_opt v (release_opt v p) = release_opt v p"
  by (simp add: release_opt_def release_idem split: option.splits)

lemma release_opt_commute: "release_opt v (release_opt w p) = release_opt w (release_opt v p)"
  by (simp add: release_opt_def release_commute split: option.splits)

lemma release_opt_None [simp]: "release_opt None p = p"
  by (simp add: release_opt_def)

lemma cleanup_fields [simp]:
  "isRecording (cleanup st) = False"
  "session (cleanup st) = None"
  "stream (cleanup st) = stream st"
  "audioContexts (cleanup st) = audioContexts st"
  "nextStartTime (cleanup st) = nextStartTime st"
  "emitted (cleanup st) = emitted st"
  "started (cleanup st) = started st"
  "length (platform (cleanup st)) = length (platform st)"
  by (simp_all add: cleanup_def Let_def)

lemma alive_cleanup:
  "alive (platform (cleanup st)) h \<longleftrightarrow> alive (platform st) h \<and> h \<notin> set (held st)"
  by (auto simp: cleanup_def Let_def alive_release_opt held_def split: option.splits)

lemma cleanup_idem: "cleanup (cleanup st) = cleanup st"
proof -
  let ?a = "release_opt (stream st)" and ?b = "release_opt (input (audioContexts st))"
    and ?c = "release_opt (output (audioContexts st))"
  let ?p = "release_opt (session st) (platform st)"
  have "?c (?b (?a (?c (?b (?a ?p))))) = ?c (?b (?a ?p))"
    by (metis release_opt_idem release_opt_commute)
  then show ?thesis by (simp add: cleanup_def Let_def)
qed

lemma cleanup_init: "cleanup init_bridge = init_bridge"
  by (simp add: cleanup_def init_bridge_def)

lemma startSession_enter_recording:
  "isRecording st \<Longrightarrow> startSession_enter input_ok output_ok st = (st, None)"
  by (simp add: startSession_enter_def)

lemma successful_start_idle:
  assumes "\<not> isRecording st"
  shows "successful_start st =
     st\<lparr>isRecording := True,
        audioContexts := \<lparr>input = Some (length (platform st)),
                           output = Some (length (platform st) + 1)\<rparr>,
        session := Some (length (platform st) + 3),
        stream := Some (length (platform st) + 2),
        platform := platform st @ [(CaptureContext, True), (PlaybackContext, True),
                                    (MicrophoneStream, True), (LiveSession, True)]\<rparr>"
  using assms
  by (simp add: successful_start_def startSession_enter_def startSession_gotStream_def
      allocate_def onopen_def startSession_connected_def Let_def)


lemma held_successful_start:
  assumes "\<not> isRecording st"
  shows "held (successful_start st) =
     [length (platform st) + 3, length (platform st) + 2, length (platform st),
      length (platform st) + 1]"
  by (simp add: successful_start_idle [OF assms] held_def)

lemma alive_successful_start:
  assumes "\<not> isRecording st"
  shows "\<forall>h\<in>set (held (successful_start st)). alive (platform (successful_start st)) h"
  by (simp add: held_successful_start [OF assms])
    (simp add: successful_start_idle [OF assms] alive_def nth_append)

text \<open>
  Claim C5. \<^verbatim>\<open>cleanup\<close> (the owner's \<^verbatim>\<open>stopSession\<close>) is a total function of the state
  and emits nothing. On a component that was never started it changes nothing. In every
  state a second call changes nothing more, and after the first call the component is
  idle and no object its variables refer to is alive. After a successful start the
  session, the microphone stream and the two contexts are four different live objects;
  the first call releases all four, and they stay released, once, under the second.
\<close>

theorem stop_idempotent:
  "cleanup init_bridge = init_bridge
   \<and> cleanup (cleanup st) = cleanup st
   \<and> isRecording (cleanup st) = False \<and> session (cleanup st) = None
   \<and> emitted (cleanup st) = emitted st
   \<and> (\<forall>h\<in>set (held st). \<not> alive (platform (cleanup st)) h)
   \<and> (\<not> isRecording st \<longrightarrow>
        length (held (successful_start st)) = 4 \<and> distinct (held (successful_start st))
        \<and> (\<forall>h\<in>set (held (successful_start st)).
              alive (platform (successful_start st)) h
              \<and> \<not> alive (platform (cleanup (successful_start st))) h
              \<and> \<not> alive (platform (cleanup (cleanup (successful_start st)))) h))"
proof -
  have "\<forall>h\<in>set (held s). \<not> alive (platform (cleanup s)) h" for s
    by (simp add: alive_cleanup)
  moreover have "length (held (successful_start st)) = 4 \<and> distinct (held (successful_start st))"
    if "\<not> isRecording st"
    by (simp add: held_successful_start [OF that])
  ultimately show ?thesis
    using alive_successful_start [of st]
    by (simp add: cleanup_init cleanup_idem)
qed

theorem stop_idempotent_witness:
  "held (successful_start init_bridge) = [3, 2, 0, 1]
   \<and> map snd (platform (successful_start init_bridge)) = [True, True, True, True]
   \<and> map snd (platform (cleanup (successful_start init_bridge))) = [False, False, False, False]
   \<and> cleanup (cleanup (successful_start init_bridge)) = cleanup (successful_start init_bridge)
   \<and> \<not> alive (platform (cleanup (cleanup (successful_start init_bridge)))) 3"
proof -
  have i: "\<not> isRecording init_bridge" by (simp add: init_bridge_def)
  have h: "held (successful_start init_bridge) = [3, 2, 0, 1]"
    by (simp add: held_successful_start [OF i]) (simp add: init_bridge_def)
  have p: "platform (successful_start init_bridge)
      = [(CaptureContext, True), (PlaybackContext, True), (MicrophoneStream, True),
         (LiveSession, True)]"
    by (simp add: successful_start_idle [OF i]) (simp add: init_bridge_def)
  have c: "map snd (platform (cleanup (successful_start init_bridge)))
      = [False, False, False, False]"
    by (simp add: cleanup_def Let_def p successful_start_idle [OF i] release_opt_def release_def)
      (simp add: init_bridge_def)
  from stop_idempotent [of "successful_start init_bridge"]
  have "cleanup (cleanup (successful_start init_bridge)) = cleanup (successful_start init_bridge)"
    by simp
  moreover from stop_idempotent [of init_bridge] i h
  have "\<not> alive (platform (cleanup (cleanup (successful_start init_bridge)))) 3"
    by simp
  ultimately show ?thesis using h p c by simp
qed

text \<open>
  Claim C3, evaluated on the code. A first \<^verbatim>\<open>startSession\<close> builds both contexts and the
  microphone request is rejected: the \<^verbatim>\<open>catch\<close> block leaves the component idle with
  no session, and no speaking-start event is emitted, but no error event either. The
  error callback is invoked zero times, where the claim says once; the sibling handler
  \<^verbatim>\<open>onerror\<close> does call \<^verbatim>\<open>emit('error', e)\<close>.
\<close>

theorem permission_denied_outcome:
  "isRecording (startSession_gotStream (MicDenied e) (fst (startSession_enter True True init_bridge)))
     = False
   \<and> session (startSession_gotStream (MicDenied e) (fst (startSession_enter True True init_bridge)))
     = None
   \<and> emitted (startSession_gotStream (MicDenied e) (fst (startSession_enter True True init_bridge)))
     = []"
  by (simp add: startSession_gotStream_def startSession_enter_def init_bridge_def allocate_def)

text \<open>
  Claim C6, evaluated on the code. The guard of \<^verbatim>\<open>startSession\<close> tests \<^verbatim>\<open>isRecording\<close>,
  which only \<^verbatim>\<open>onopen\<close> sets. A second call before the handshake of the first has
  completed passes the guard and builds two more contexts: two capture and two playback
  contexts are alive, and since \<^verbatim>\<open>audioContexts\<close> now refers to the second pair, a
  \<^verbatim>\<open>cleanup\<close> leaves the first pair alive. Likewise, when the second constructor
  throws after the first has returned, \<^verbatim>\<open>audioContexts\<close> has not been assigned yet:
  the \<^verbatim>\<open>cleanup\<close> of the \<^verbatim>\<open>catch\<close> block, and any later one, leaves the capture
  context alive.
\<close>

theorem double_start_leaks:
  "alive_of CaptureContext
     (platform (fst (startSession_enter True True (fst (startSession_enter True True init_bridge)))))
     = [0, 2]
   \<and> alive_of PlaybackContext
     (platform (fst (startSession_enter True True (fst (startSession_enter True True init_bridge)))))
     = [1, 3]
   \<and> alive_of CaptureContext
     (platform (cleanup
        (fst (startSession_enter True True (fst (startSession_enter True True init_bridge))))))
     = [0]
   \<and> alive_of PlaybackContext
     (platform (cleanup
        (fst (startSession_enter True True (fst (startSession_enter True True init_bridge))))))
     = [1]
   \<and> alive_of CaptureContext (platform (fst (startSession_enter True False init_bridge))) = [0]
   \<and> held (fst (startSession_enter True False init_bridge)) = []
   \<and> alive_of CaptureContext
         (platform (cleanup (fst (startSession_enter True False init_bridge)))) = [0]"
  by (simp add: startSession_enter_def init_bridge_def allocate_def cleanup_def Let_def
      release_opt_def release_def alive_of_def held_def upt_rec)


lemma fold_closes:
  "fold do_step (closes v) st = st\<lparr>platform := release_opt v (platform st)\<rparr>"
  by (cases v) (simp_all add: closes_def release_opt_def)

lemma cleanup_steps_run: "fold do_step (cleanup_steps st) st = cleanup st"
  by (simp add: cleanup_steps_def cleanup_def Let_def fold_closes)

lemma onclose_eq: "onclose st = cleanup st"
  by (simp add: onclose_steps_def onclose_def cleanup_steps_run)

lemma onerror_eq: "onerror e st = cleanup (st\<lparr>emitted := emitted st @ [ErrorEvent e]\<rparr>)"
proof -
  let ?st = "st\<lparr>emitted := emitted st @ [ErrorEvent e]\<rparr>"
  have "cleanup_steps ?st = cleanup_steps st" by (simp add: cleanup_steps_def)
  then have "fold do_step (cleanup_steps st) ?st = cleanup ?st"
    using cleanup_steps_run [of ?st] by simp
  then show ?thesis by (simp add: onerror_steps_def onerror_def)
qed

lemma fail_cases:
  "fail PermissionDenied e st = cleanup st"
  "\<not> isRecording st \<Longrightarrow> fail (DeviceInitFailure False) e st = cleanup st"
  "\<not> isRecording st \<Longrightarrow>
     fail (DeviceInitFailure True) e st
       = cleanup (st\<lparr>platform := platform st @ [(CaptureContext, True)]\<rparr>)"
  "fail HandshakeFailure e st = cleanup st"
  "fail RemoteError e st = cleanup (st\<lparr>emitted := emitted st @ [ErrorEvent e]\<rparr>)"
  "fail RemoteClosed e st = cleanup st"
  by (simp_all add: startSession_gotStream_def startSession_enter_def allocate_def
      startSession_connected_def onerror_eq onclose_eq)

lemma cleanup_steps_teardown:
  "SetRecording False \<in> set (cleanup_steps st)"
  "ClearSession \<in> set (cleanup_steps st)"
  "\<forall>h\<in>set (held st). Close h \<in> set (cleanup_steps st)"
  "\<forall>ev. Emit ev \<notin> set (cleanup_steps st)"
  by (auto simp: cleanup_steps_def closes_def held_def split: option.splits)

text \<open>
  Claim C4, amended. Every failure class ends in the same teardown: the component is
  idle, has no session, and every object its variables referred to is released; no
  handler starts again (apart from the capture context that a failing start had already
  built, no object is created). A remote error emits the error event with its payload,
  once, and it does so first: the statements of the teardown (the recording flag, the
  close of every object the variables refer to, the session variable) all come after the
  emit, and they are the rest of the handler. A remote close emits nothing. What the
  three failures of \<^verbatim>\<open>startSession\<close> emit is not part of this statement.
\<close>

theorem failure_handling:
  assumes "\<forall>b. f = DeviceInitFailure b \<longrightarrow> \<not> isRecording st"
  shows "isRecording (fail f e st) = False \<and> session (fail f e st) = None
     \<and> (\<forall>h\<in>set (held st). \<not> alive (platform (fail f e st)) h)
     \<and> (f \<noteq> DeviceInitFailure True \<longrightarrow> length (platform (fail f e st)) = length (platform st))
     \<and> (f = RemoteError \<longrightarrow> emitted (fail f e st) = emitted st @ [ErrorEvent e])
     \<and> (f = RemoteClosed \<longrightarrow> emitted (fail f e st) = emitted st)
     \<and> (f = RemoteError \<longrightarrow>
          (\<exists>rest. onerror_steps e st = Emit (ErrorEvent e) # rest
             \<and> (\<forall>ev. Emit ev \<notin> set rest)
             \<and> SetRecording False \<in> set rest \<and> ClearSession \<in> set rest
             \<and> (\<forall>h\<in>set (held st). Close h \<in> set rest)
             \<and> fold do_step rest (do_step (Emit (ErrorEvent e)) st)
                 = cleanup (do_step (Emit (ErrorEvent e)) st))
          \<and> fold do_step (onerror_steps e st) st = fail f e st)
     \<and> (f = RemoteClosed \<longrightarrow>
          (\<forall>ev. Emit ev \<notin> set (onclose_steps st))
          \<and> fold do_step (onclose_steps st) st = fail f e st)"
proof -
  have state: "isRecording (fail f e st) = False \<and> session (fail f e st) = None
     \<and> (\<forall>h\<in>set (held st). \<not> alive (platform (fail f e st)) h)
     \<and> (f \<noteq> DeviceInitFailure True \<longrightarrow> length (platform (fail f e st)) = length (platform st))
     \<and> (f = RemoteError \<longrightarrow> emitted (fail f e st) = emitted st @ [ErrorEvent e])
     \<and> (f = RemoteClosed \<longrightarrow> emitted (fail f e st) = emitted st)"
  proof (cases f)
    case PermissionDenied
    then show ?thesis by (simp add: fail_cases alive_cleanup del: fail.simps)
  next
    case (DeviceInitFailure b)
    with assms have idle: "\<not> isRecording st" by simp
    show ?thesis
    proof (cases b)
      case False
      with DeviceInitFailure idle show ?thesis
        by (simp add: fail_cases alive_cleanup del: fail.simps)
    next
      case True
      let ?st = "st\<lparr>platform := platform st @ [(CaptureContext, True)]\<rparr>"
      have "held ?st = held st" by (simp add: held_def)
      then have "\<forall>h\<in>set (held st). \<not> alive (platform (cleanup ?st)) h"
        by (simp add: alive_cleanup)
      with DeviceInitFailure idle True show ?thesis by (simp add: fail_cases del: fail.simps)
    qed
  next
    case HandshakeFailure
    then show ?thesis by (simp add: fail_cases alive_cleanup del: fail.simps)
  next
    case RemoteError
    let ?st = "st\<lparr>emitted := emitted st @ [ErrorEvent e]\<rparr>"
    have "held ?st = held st" by (simp add: held_def)
    then have "\<forall>h\<in>set (held st). \<not> alive (platform (cleanup ?st)) h"
      by (simp add: alive_cleanup)
    with RemoteError show ?thesis by (simp add: fail_cases del: fail.simps)
  next
    case RemoteClosed
    then show ?thesis by (simp add: fail_cases alive_cleanup del: fail.simps)
  qed
  have order: "\<exists>rest. onerror_steps e st = Emit (ErrorEvent e) # rest
             \<and> (\<forall>ev. Emit ev \<notin> set rest)
             \<and> SetRecording False \<in> set rest \<and> ClearSession \<in> set rest
             \<and> (\<forall>h\<in>set (held st). Close h \<in> set rest)
             \<and> fold do_step rest (do_step (Emit (ErrorEvent e)) st)
                 = cleanup (do_step (Emit (ErrorEvent e)) st)"
  proof -
    let ?st = "do_step (Emit (ErrorEvent e)) st"
    have "cleanup_steps ?st = cleanup_steps st" by (simp add: cleanup_steps_def)
    then have "fold do_step (cleanup_steps st) ?st = cleanup ?st"
      using cleanup_steps_run [of ?st] by simp
    with cleanup_steps_teardown [of st] show ?thesis
      by (simp add: onerror_steps_def)
  qed
  have silent: "\<forall>ev. Emit ev \<notin> set (onclose_steps st)"
    using cleanup_steps_teardown(4) [of st] by (simp add: onclose_steps_def)
  show ?thesis
    using state order silent by (simp add: onerror_def onclose_def)
qed

theorem failure_handling_witness:
  "held (successful_start init_bridge) = [3, 2, 0, 1]
   \<and> isRecording (successful_start init_bridge)
   \<and> isRecording (fail RemoteError ''connection lost'' (successful_start init_bridge)) = False
   \<and> session (fail RemoteError ''connection lost'' (successful_start init_bridge)) = None
   \<and> \<not> alive (platform (fail RemoteError ''connection lost'' (successful_start init_bridge))) 3
   \<and> \<not> alive (platform (fail RemoteError ''connection lost'' (successful_start init_bridge))) 0
   \<and> emitted (fail RemoteError ''connection lost'' (successful_start init_bridge))
       = [ErrorEvent ''connection lost'']
   \<and> hd (onerror_steps ''connection lost'' (successful_start init_bridge))
       = Emit (ErrorEvent ''connection lost'')
   \<and> Close 3 \<in> set (tl (onerror_steps ''connection lost'' (successful_start init_bridge)))
   \<and> fold do_step (onerror_steps ''connection lost'' (successful_start init_bridge))
         (successful_start init_bridge)
       = fail RemoteError ''connection lost'' (successful_start init_bridge)
   \<and> isRecording (fail (DeviceInitFailure False) ''no device'' init_bridge) = False
   \<and> emitted (fail RemoteClosed ''closed'' (successful_start init_bridge)) = []"
proof -
  have i: "\<not> isRecording init_bridge" by (simp add: init_bridge_def)
  have h: "held (successful_start init_bridge) = [3, 2, 0, 1]"
    by (simp add: held_successful_start [OF i]) (simp add: init_bridge_def)
  have r: "isRecording (successful_start init_bridge)"
    "emitted (successful_start init_bridge) = []"
    by (simp_all add: successful_start_idle [OF i]) (simp add: init_bridge_def)
  note a = failure_handling [of RemoteError "successful_start init_bridge" "''connection lost''"]
  note b = failure_handling [of "DeviceInitFailure False" init_bridge "''no device''"]
  note c = failure_handling [of RemoteClosed "successful_start init_bridge" "''closed''"]
  from a have a1: "isRecording (fail RemoteError ''connection lost'' (successful_start init_bridge)) = False"
    "session (fail RemoteError ''connection lost'' (successful_start init_bridge)) = None"
    "\<forall>h\<in>set (held (successful_start init_bridge)).
       \<not> alive (platform (fail RemoteError ''connection lost'' (successful_start init_bridge))) h"
    "emitted (fail RemoteError ''connection lost'' (successful_start init_bridge))
       = emitted (successful_start init_bridge) @ [ErrorEvent ''connection lost'']"
    "fold do_step (onerror_steps ''connection lost'' (successful_start init_bridge))
         (successful_start init_bridge)
       = fail RemoteError ''connection lost'' (successful_start init_bridge)"
    by (simp_all del: fail.simps)
  from a obtain rest where
    o: "onerror_steps ''connection lost'' (successful_start init_bridge)
          = Emit (ErrorEvent ''connection lost'') # rest"
    and cl: "\<forall>h\<in>set (held (successful_start init_bridge)). Close h \<in> set rest"
    by (auto simp del: fail.simps)
  from b i have b1: "isRecording (fail (DeviceInitFailure False) ''no device'' init_bridge) = False"
    by (simp del: fail.simps)
  from c have c1: "emitted (fail RemoteClosed ''closed'' (successful_start init_bridge))
      = emitted (successful_start init_bridge)"
    by (simp del: fail.simps)
  show ?thesis
    using a1 b1 c1 o cl h r by (simp del: fail.simps)
qed

text \<open>
  A started component, once with a remote error and once with a remote close: the owner
  receives an error event for the first and nothing for the second; and for the remote
  error the emit is the first statement, with the whole teardown after it, where the
  claim has the teardown first.
\<close>

theorem remote_close_is_silent:
  "emitted (fail RemoteError ''connection lost'' (successful_start init_bridge))
     = [ErrorEvent ''connection lost'']
   \<and> emitted (fail RemoteClosed ''connection lost'' (successful_start init_bridge)) = []
   \<and> onerror_steps ''connection lost'' (successful_start init_bridge)
     = [Emit (ErrorEvent ''connection lost''), SetRecording False, Close 3, Close 2, Close 0,
        Close 1, ClearSession]"
proof -
  have i: "\<not> isRecording init_bridge" by (simp add: init_bridge_def)
  show ?thesis
    by (simp add: successful_start_idle [OF i] onerror_eq onclose_eq onerror_steps_def
        cleanup_steps_def closes_def)
      (simp add: init_bridge_def)
qed

end
